theory Spec2Isabelle
  imports Main "HOL-Library.FSet" "HOL-Library.Product_Lexorder"
begin

section \<open>Data model of \<open>minesweeper.py\<close>\<close>

text \<open>
  A cell is a Python tuple \<open>(row, col)\<close> of unbounded integers. Python sets are finite,
  so they are finite sets here and \<open>len\<close> is \<open>fcard\<close>.
\<close>

type_synonym cell = "int \<times> int"

text \<open>Class \<open>Sentence\<close>: a set of cells and the number of them that are mines.\<close>

record sentence =
  cells :: "cell fset"
  count :: int

text \<open>
  \<open>Sentence.__init__\<close> copies the cells into a fresh set and stores the count as given.
  It has no check and no raise.
\<close>

definition Sentence :: "cell fset \<Rightarrow> int \<Rightarrow> sentence" where
  "Sentence cs k = \<lparr>cells = cs, count = k\<rparr>"

text \<open>
  \<open>Sentence.known_mines\<close>: returns \<open>self.cells\<close> when \<open>len(self.cells) == self.count\<close>;
  the \<open>elif\<close> branch returns \<open>None\<close>, and so does falling off the end.
\<close>

definition known_mines :: "sentence \<Rightarrow> cell fset option" where
  "known_mines sen =
     (if int (fcard (cells sen)) = count sen then Some (cells sen)
      else if count sen = 0 then None
      else None)"

definition known_safes :: "sentence \<Rightarrow> cell fset option" where
  "known_safes sen = (if count sen = 0 then Some (cells sen) else None)"

definition Sentence_mark_mine :: "sentence \<Rightarrow> cell \<Rightarrow> sentence" where
  "Sentence_mark_mine sen c =
     (if c |\<in>| cells sen
      then sen\<lparr>cells := cells sen |-| {|c|}, count := count sen - 1\<rparr>
      else sen)"

definition Sentence_mark_safe :: "sentence \<Rightarrow> cell \<Rightarrow> sentence" where
  "Sentence_mark_safe sen c =
     (if c |\<in>| cells sen then sen\<lparr>cells := cells sen |-| {|c|}\<rparr> else sen)"

text \<open>
  Class \<open>MinesweeperAI\<close>. The sentences of \<open>self.knowledge\<close> are mutable objects that
  are shared between the list and the local variable \<open>sentence\<close> of every running
  \<open>check_and_add_sentence\<close>, so the model has a store: \<open>heap\<close> holds the current value
  of every sentence object that was ever appended, an object's address is its position
  in \<open>heap\<close>, and \<open>knowledge\<close> is the list of addresses.
\<close>

record ai =
  height :: int
  width :: int
  moves_made :: "cell fset"
  mines :: "cell fset"
  safes :: "cell fset"
  heap :: "sentence list"
  knowledge :: "nat list"

text \<open>
  Reading an object. Every address the program holds is inside the store
  (\<open>append_sentence\<close> is the only source of addresses); for an address outside it the
  model reads a sentence with no cells, so that \<open>deref\<close> is total.
\<close>

definition deref :: "sentence list \<Rightarrow> nat \<Rightarrow> sentence" where
  "deref h a = (if a < length h then h ! a else Sentence {||} 0)"

text \<open>\<open>MinesweeperAI.__init__\<close>\<close>

definition MinesweeperAI :: "int \<Rightarrow> int \<Rightarrow> ai" where
  "MinesweeperAI h w =
     \<lparr>height = h, width = w, moves_made = {||}, mines = {||}, safes = {||},
      heap = [], knowledge = []\<rparr>"

text \<open>
  \<open>MinesweeperAI.mark_mine\<close> and \<open>mark_safe\<close>: add the cell to the set and call the
  sentence's method on every object of the list, in list order.
\<close>

definition mark_mine :: "ai \<Rightarrow> cell \<Rightarrow> ai" where
  "mark_mine s c =
     s\<lparr>mines := finsert c (mines s),
       heap := fold (\<lambda>a h. h[a := Sentence_mark_mine (deref h a) c]) (knowledge s) (heap s)\<rparr>"

definition mark_safe :: "ai \<Rightarrow> cell \<Rightarrow> ai" where
  "mark_safe s c =
     s\<lparr>safes := finsert c (safes s),
       heap := fold (\<lambda>a h. h[a := Sentence_mark_safe (deref h a) c]) (knowledge s) (heap s)\<rparr>"

text \<open>
  \<open>for cell in cs: self.mark_mine(cell)\<close> over a Python set \<open>cs\<close>. Python visits a set
  in an order of its own; the model visits it in sorted order. The result does not
  depend on the order (\<open>mark_mines_order\<close>, \<open>mark_safes_order\<close>).
\<close>

definition mark_mines :: "ai \<Rightarrow> cell fset \<Rightarrow> ai" where
  "mark_mines s cs = fold (\<lambda>c s'. mark_mine s' c) (sorted_list_of_fset cs) s"

definition mark_safes :: "ai \<Rightarrow> cell fset \<Rightarrow> ai" where
  "mark_safes s cs = fold (\<lambda>c s'. mark_safe s' c) (sorted_list_of_fset cs) s"

text \<open>
  \<open>self.knowledge.remove(x)\<close>: Python deletes the first element that is equal to \<open>x\<close>
  by \<open>Sentence.__eq__\<close> (same cells and same count), which need not be the object \<open>x\<close>
  itself. It raises \<open>ValueError\<close> when there is none; both callers pass an element of
  the list, so that branch is never taken.
\<close>

fun list_remove :: "sentence list \<Rightarrow> sentence \<Rightarrow> nat list \<Rightarrow> nat list" where
  "list_remove h x [] = []"
| "list_remove h x (a # as) = (if deref h a = x then as else a # list_remove h x as)"

text \<open>\<open>sentence in self.knowledge\<close>, again by \<open>Sentence.__eq__\<close>.\<close>

definition sentence_in :: "sentence \<Rightarrow> ai \<Rightarrow> bool" where
  "sentence_in sen s = list_ex (\<lambda>a. deref (heap s) a = sen) (knowledge s)"

section \<open>\<open>check_knowledge\<close>\<close>

text \<open>
  The body of the \<open>for sentence in self.knowledge\<close> loop of \<open>check_knowledge\<close> for a
  sentence that is not empty: the two \<open>if\<close> statements that add the sentence's known
  mines and known safes to the local sets \<open>mines\<close> and \<open>safes\<close> and set \<open>update\<close>.
  The accumulator is \<open>(update, mines, safes)\<close>.
\<close>

definition collect ::
  "sentence \<Rightarrow> bool \<times> cell fset \<times> cell fset \<Rightarrow> bool \<times> cell fset \<times> cell fset" where
  "collect sen acc =
     (case acc of (update, ms, ss) \<Rightarrow>
        (let (u1, ms1) = (case known_mines sen of
                            Some cs \<Rightarrow> (True, ms |\<union>| cs) | None \<Rightarrow> (update, ms));
             (u2, ss1) = (case known_safes sen of
                            Some cs \<Rightarrow> (True, ss |\<union>| cs) | None \<Rightarrow> (u1, ss))
         in (u2, ms1, ss1)))"

text \<open>
  The loop itself. Python's list iterator keeps an index and reads the list's current
  length at every step, so a \<open>remove\<close> inside the loop shifts the rest of the list
  under the index, and the element that moves into the freed position is not visited.
\<close>

function check_knowledge_loop ::
  "ai \<Rightarrow> nat \<Rightarrow> bool \<times> cell fset \<times> cell fset \<Rightarrow> ai \<times> bool \<times> cell fset \<times> cell fset" where
  "check_knowledge_loop s i acc =
     (if i < length (knowledge s) then
        (let sen = deref (heap s) (knowledge s ! i) in
         if fcard (cells sen) = 0
         then check_knowledge_loop
                (s\<lparr>knowledge := list_remove (heap s) sen (knowledge s)\<rparr>) (Suc i) acc
         else check_knowledge_loop s (Suc i) (collect sen acc))
      else (s, acc))"
  by pat_completeness auto

lemma list_remove_le: "length (list_remove h x as) \<le> length as"
  by (induction as) auto

termination check_knowledge_loop
proof (relation "measure (\<lambda>(s, i, acc). length (knowledge s) - i)")
  show "wf (measure (\<lambda>(s, i, acc). length (knowledge s) - i))" by simp
next
  fix s :: ai and i :: nat and acc :: "bool \<times> cell fset \<times> cell fset" and sen :: sentence
  assume "i < length (knowledge s)"
  moreover have "length (list_remove (heap s) sen (knowledge s)) \<le> length (knowledge s)"
    by (rule list_remove_le)
  ultimately show "((s\<lparr>knowledge := list_remove (heap s) sen (knowledge s)\<rparr>, Suc i, acc),
       (s, i, acc)) \<in> measure (\<lambda>(s, i, acc). length (knowledge s) - i)"
    by simp
next
  fix s :: ai and i :: nat and acc :: "bool \<times> cell fset \<times> cell fset" and sen :: sentence
  assume "i < length (knowledge s)"
  then show "((s, Suc i, collect sen acc), (s, i, acc))
      \<in> measure (\<lambda>(s, i, acc). length (knowledge s) - i)"
    by simp
qed

declare check_knowledge_loop.simps [simp del]

text \<open>
  What a sentence is after \<open>mark_mine\<close> (respectively \<open>mark_safe\<close>) has been called on
  it for every cell of a set: the two marking loops in closed form.
\<close>

definition marked_mines :: "sentence \<Rightarrow> cell fset \<Rightarrow> sentence" where
  "marked_mines sen cs = \<lparr>cells = cells sen |-| cs, count = count sen - int (fcard (cells sen |\<inter>| cs))\<rparr>"

definition marked_safes :: "sentence \<Rightarrow> cell fset \<Rightarrow> sentence" where
  "marked_safes sen cs = \<lparr>cells = cells sen |-| cs, count = count sen\<rparr>"

lemma deref_update:
  assumes "f (Sentence {||} 0) = Sentence {||} 0"
  shows "deref (h[a := f (deref h a)]) b = (if b = a then f (deref h b) else deref h b)"
  using assms by (auto simp: deref_def)

lemma fold_upd_deref:
  assumes "\<And>x. f (f x) = f x" and "f (Sentence {||} 0) = Sentence {||} 0"
  shows "deref (fold (\<lambda>a h. h[a := f (deref h a)]) as h) b
           = (if b \<in> set as then f (deref h b) else deref h b)"
  using assms by (induction as arbitrary: h) (auto simp: deref_update)

lemma fold_upd_length:
  "length (fold (\<lambda>a h. h[a := g a h]) as h) = length h"
  by (induction as arbitrary: h) auto

lemma heap_eqI:
  assumes "length h = length h'" and "\<And>a. deref h a = deref h' a"
  shows "h = h'"
proof (rule nth_equalityI)
  show "length h = length h'" by (rule assms(1))
next
  fix i assume "i < length h"
  with assms(2)[of i] assms(1) show "h ! i = h' ! i" by (simp add: deref_def)
qed

lemma Sentence_mark_mine_idem: "Sentence_mark_mine (Sentence_mark_mine x c) c = Sentence_mark_mine x c"
  by (simp add: Sentence_mark_mine_def)

lemma Sentence_mark_safe_idem: "Sentence_mark_safe (Sentence_mark_safe x c) c = Sentence_mark_safe x c"
  by (simp add: Sentence_mark_safe_def)

lemma Sentence_mark_mine_default: "Sentence_mark_mine (Sentence {||} 0) c = Sentence {||} 0"
  by (simp add: Sentence_mark_mine_def Sentence_def)

lemma Sentence_mark_safe_default: "Sentence_mark_safe (Sentence {||} 0) c = Sentence {||} 0"
  by (simp add: Sentence_mark_safe_def Sentence_def)

lemma deref_mark_mine:
  "deref (heap (mark_mine s c)) a =
     (if a \<in> set (knowledge s) then Sentence_mark_mine (deref (heap s) a) c else deref (heap s) a)"
  using fold_upd_deref[of "\<lambda>x. Sentence_mark_mine x c" "knowledge s" "heap s" a]
  by (simp add: mark_mine_def Sentence_mark_mine_idem Sentence_mark_mine_default)

lemma deref_mark_safe:
  "deref (heap (mark_safe s c)) a =
     (if a \<in> set (knowledge s) then Sentence_mark_safe (deref (heap s) a) c else deref (heap s) a)"
  using fold_upd_deref[of "\<lambda>x. Sentence_mark_safe x c" "knowledge s" "heap s" a]
  by (simp add: mark_safe_def Sentence_mark_safe_idem Sentence_mark_safe_default)

lemma mark_mine_fields:
  "knowledge (mark_mine s c) = knowledge s" "mines (mark_mine s c) = finsert c (mines s)"
  "safes (mark_mine s c) = safes s" "moves_made (mark_mine s c) = moves_made s"
  "height (mark_mine s c) = height s" "width (mark_mine s c) = width s"
  "length (heap (mark_mine s c)) = length (heap s)"
  by (simp_all add: mark_mine_def fold_upd_length)

lemma mark_safe_fields:
  "knowledge (mark_safe s c) = knowledge s" "safes (mark_safe s c) = finsert c (safes s)"
  "mines (mark_safe s c) = mines s" "moves_made (mark_safe s c) = moves_made s"
  "height (mark_safe s c) = height s" "width (mark_safe s c) = width s"
  "length (heap (mark_safe s c)) = length (heap s)"
  by (simp_all add: mark_safe_def fold_upd_length)

lemma marked_mines_step:
  "marked_mines (Sentence_mark_mine sen c) cs = marked_mines sen (finsert c cs)"
proof (cases "c |\<in>| cells sen")
  case True
  have "cells sen |\<inter>| finsert c cs = finsert c ((cells sen |-| {|c|}) |\<inter>| cs)"
    using True by auto
  moreover have "c |\<notin>| (cells sen |-| {|c|}) |\<inter>| cs" by auto
  ultimately have "fcard (cells sen |\<inter>| finsert c cs) = Suc (fcard ((cells sen |-| {|c|}) |\<inter>| cs))"
    by (simp add: fcard_finsert_disjoint)
  moreover have "cells sen |-| {|c|} |-| cs = cells sen |-| finsert c cs" by auto
  ultimately show ?thesis using True
    by (simp add: marked_mines_def Sentence_mark_mine_def)
next
  case False
  then have "cells sen |\<inter>| finsert c cs = cells sen |\<inter>| cs"
     and "cells sen |-| finsert c cs = cells sen |-| cs" by auto
  then show ?thesis using False by (simp add: marked_mines_def Sentence_mark_mine_def)
qed

lemma marked_safes_step:
  "marked_safes (Sentence_mark_safe sen c) cs = marked_safes sen (finsert c cs)"
proof -
  have "cells sen |-| {|c|} |-| cs = cells sen |-| finsert c cs" by auto
  moreover have "c |\<notin>| cells sen \<Longrightarrow> cells sen |-| finsert c cs = cells sen |-| cs" by auto
  ultimately show ?thesis by (simp add: marked_safes_def Sentence_mark_safe_def)
qed

lemma marked_mines_empty: "marked_mines sen {||} = sen"
  by (simp add: marked_mines_def)

lemma marked_safes_empty: "marked_safes sen {||} = sen"
  by (simp add: marked_safes_def)

lemma fold_mark_mine:
  "knowledge (fold (\<lambda>c s'. mark_mine s' c) xs s) = knowledge s \<and>
   mines (fold (\<lambda>c s'. mark_mine s' c) xs s) = fset_of_list xs |\<union>| mines s \<and>
   safes (fold (\<lambda>c s'. mark_mine s' c) xs s) = safes s \<and>
   moves_made (fold (\<lambda>c s'. mark_mine s' c) xs s) = moves_made s \<and>
   height (fold (\<lambda>c s'. mark_mine s' c) xs s) = height s \<and>
   width (fold (\<lambda>c s'. mark_mine s' c) xs s) = width s \<and>
   length (heap (fold (\<lambda>c s'. mark_mine s' c) xs s)) = length (heap s) \<and>
   (\<forall>a. deref (heap (fold (\<lambda>c s'. mark_mine s' c) xs s)) a =
     (if a \<in> set (knowledge s) then marked_mines (deref (heap s) a) (fset_of_list xs)
      else deref (heap s) a))"
proof (induction xs arbitrary: s)
  case Nil
  show ?case by (simp add: marked_mines_empty)
next
  case (Cons c xs)
  show ?case
    by (simp add: Cons.IH[of "mark_mine s c"] mark_mine_fields deref_mark_mine marked_mines_step)
qed

lemma fold_mark_safe:
  "knowledge (fold (\<lambda>c s'. mark_safe s' c) xs s) = knowledge s \<and>
   safes (fold (\<lambda>c s'. mark_safe s' c) xs s) = fset_of_list xs |\<union>| safes s \<and>
   mines (fold (\<lambda>c s'. mark_safe s' c) xs s) = mines s \<and>
   moves_made (fold (\<lambda>c s'. mark_safe s' c) xs s) = moves_made s \<and>
   height (fold (\<lambda>c s'. mark_safe s' c) xs s) = height s \<and>
   width (fold (\<lambda>c s'. mark_safe s' c) xs s) = width s \<and>
   length (heap (fold (\<lambda>c s'. mark_safe s' c) xs s)) = length (heap s) \<and>
   (\<forall>a. deref (heap (fold (\<lambda>c s'. mark_safe s' c) xs s)) a =
     (if a \<in> set (knowledge s) then marked_safes (deref (heap s) a) (fset_of_list xs)
      else deref (heap s) a))"
proof (induction xs arbitrary: s)
  case Nil
  show ?case by (simp add: marked_safes_empty)
next
  case (Cons c xs)
  show ?case
    by (simp add: Cons.IH[of "mark_safe s c"] mark_safe_fields deref_mark_safe marked_safes_step)
qed

lemma mark_mines_fields:
  "knowledge (mark_mines s cs) = knowledge s" "mines (mark_mines s cs) = cs |\<union>| mines s"
  "safes (mark_mines s cs) = safes s" "moves_made (mark_mines s cs) = moves_made s"
  "height (mark_mines s cs) = height s" "width (mark_mines s cs) = width s"
  "length (heap (mark_mines s cs)) = length (heap s)"
  "deref (heap (mark_mines s cs)) a =
     (if a \<in> set (knowledge s) then marked_mines (deref (heap s) a) cs else deref (heap s) a)"
  using fold_mark_mine[of "sorted_list_of_fset cs" s] by (simp_all add: mark_mines_def)

lemma mark_safes_fields:
  "knowledge (mark_safes s cs) = knowledge s" "safes (mark_safes s cs) = cs |\<union>| safes s"
  "mines (mark_safes s cs) = mines s" "moves_made (mark_safes s cs) = moves_made s"
  "height (mark_safes s cs) = height s" "width (mark_safes s cs) = width s"
  "length (heap (mark_safes s cs)) = length (heap s)"
  "deref (heap (mark_safes s cs)) a =
     (if a \<in> set (knowledge s) then marked_safes (deref (heap s) a) cs else deref (heap s) a)"
  using fold_mark_safe[of "sorted_list_of_fset cs" s] by (simp_all add: mark_safes_def)

text \<open>
  The marking loops give the same state in whatever order the cells of the set are
  visited.
\<close>

lemma mark_mines_order:
  assumes "fset_of_list xs = cs"
  shows "fold (\<lambda>c s'. mark_mine s' c) xs s = mark_mines s cs"
proof (rule ai.equality)
  show "heap (fold (\<lambda>c s'. mark_mine s' c) xs s) = heap (mark_mines s cs)"
    using fold_mark_mine[of xs s] assms
    by (intro heap_eqI) (simp_all add: mark_mines_fields)
qed (insert fold_mark_mine[of xs s] fold_mark_mine[of "sorted_list_of_fset cs" s] assms,
     simp_all add: mark_mines_def)

lemma mark_safes_order:
  assumes "fset_of_list xs = cs"
  shows "fold (\<lambda>c s'. mark_safe s' c) xs s = mark_safes s cs"
proof (rule ai.equality)
  show "heap (fold (\<lambda>c s'. mark_safe s' c) xs s) = heap (mark_safes s cs)"
    using fold_mark_safe[of xs s] assms
    by (intro heap_eqI) (simp_all add: mark_safes_fields)
qed (insert fold_mark_safe[of xs s] fold_mark_safe[of "sorted_list_of_fset cs" s] assms,
     simp_all add: mark_safes_def)

text \<open>
  The number of cells over all sentences of the list: it decreases with every pass of
  \<open>check_knowledge\<close> that sets \<open>update\<close>, which is why \<open>check_knowledge\<close> terminates.
\<close>

definition kcells :: "ai \<Rightarrow> nat" where
  "kcells s = sum_list (map (\<lambda>a. fcard (cells (deref (heap s) a))) (knowledge s))"

lemma list_remove_keeps: "a \<in> set as \<Longrightarrow> deref h a \<noteq> x \<Longrightarrow> a \<in> set (list_remove h x as)"
  by (induction as) auto


lemma list_remove_sum: "sum_list (map f (list_remove h x as)) \<le> (sum_list (map f as) :: nat)"
  by (induction as) auto

lemma check_knowledge_loop_end:
  "\<not> i < length (knowledge s) \<Longrightarrow> check_knowledge_loop s i acc = (s, acc)"
  by (subst check_knowledge_loop.simps) simp

lemma check_knowledge_loop_remove:
  "i < length (knowledge s) \<Longrightarrow> fcard (cells (deref (heap s) (knowledge s ! i))) = 0 \<Longrightarrow>
   check_knowledge_loop s i acc =
   check_knowledge_loop
     (s\<lparr>knowledge := list_remove (heap s) (deref (heap s) (knowledge s ! i)) (knowledge s)\<rparr>)
     (Suc i) acc"
  by (subst check_knowledge_loop.simps) simp

lemma check_knowledge_loop_collect:
  "i < length (knowledge s) \<Longrightarrow> fcard (cells (deref (heap s) (knowledge s ! i))) \<noteq> 0 \<Longrightarrow>
   check_knowledge_loop s i acc =
   check_knowledge_loop s (Suc i) (collect (deref (heap s) (knowledge s ! i)) acc)"
  by (subst check_knowledge_loop.simps) simp

lemma check_knowledge_loop_inv:
  assumes init: "P s acc"
    and rem: "\<And>s i acc. P s acc \<Longrightarrow> i < length (knowledge s) \<Longrightarrow>
                fcard (cells (deref (heap s) (knowledge s ! i))) = 0 \<Longrightarrow>
                P (s\<lparr>knowledge := list_remove (heap s) (deref (heap s) (knowledge s ! i)) (knowledge s)\<rparr>) acc"
    and col: "\<And>s i acc. P s acc \<Longrightarrow> i < length (knowledge s) \<Longrightarrow>
                fcard (cells (deref (heap s) (knowledge s ! i))) \<noteq> 0 \<Longrightarrow>
                P s (collect (deref (heap s) (knowledge s ! i)) acc)"
  shows "P (fst (check_knowledge_loop s i acc)) (snd (check_knowledge_loop s i acc))"
  using init
proof (induction s i acc rule: check_knowledge_loop.induct)
  case (1 s i acc)
  show ?case
  proof (cases "i < length (knowledge s)")
    case False
    with "1.prems" show ?thesis by (simp add: check_knowledge_loop_end)
  next
    case inr: True
    show ?thesis
    proof (cases "fcard (cells (deref (heap s) (knowledge s ! i))) = 0")
      case True
      from "1.IH"(1)[OF inr refl True rem[OF "1.prems" inr True]]
      show ?thesis by (simp add: check_knowledge_loop_remove[OF inr True])
    next
      case False
      from "1.IH"(2)[OF inr refl False col[OF "1.prems" inr False]]
      show ?thesis by (simp add: check_knowledge_loop_collect[OF inr False])
    qed
  qed
qed

text \<open>
  When a pass has set \<open>update\<close>, some sentence of the list is not empty and has all its
  cells among the collected mines and safes.
\<close>

definition triggered :: "ai \<Rightarrow> bool \<times> cell fset \<times> cell fset \<Rightarrow> bool" where
  "triggered s acc = (case acc of (update, ms, ss) \<Rightarrow>
      update \<longrightarrow> (\<exists>a \<in> set (knowledge s). cells (deref (heap s) a) \<noteq> {||} \<and>
                      cells (deref (heap s) a) |\<subseteq>| ms |\<union>| ss))"

lemma collect_grows:
  "collect sen (u, ms, ss) = (u', ms', ss') \<Longrightarrow> ms |\<subseteq>| ms' \<and> ss |\<subseteq>| ss' \<and> (u \<longrightarrow> u')"
  by (auto simp: collect_def Let_def split: option.splits prod.splits)

lemma collect_new:
  "collect sen (u, ms, ss) = (u', ms', ss') \<Longrightarrow> u' \<Longrightarrow> \<not> u \<Longrightarrow> cells sen |\<subseteq>| ms' |\<union>| ss'"
  by (auto simp: collect_def Let_def known_mines_def known_safes_def split: option.splits prod.splits if_splits)

lemma triggered_collect:
  assumes "triggered s acc" "i < length (knowledge s)"
    "fcard (cells (deref (heap s) (knowledge s ! i))) \<noteq> 0"
  shows "triggered s (collect (deref (heap s) (knowledge s ! i)) acc)"
proof -
  obtain u ms ss where acc: "acc = (u, ms, ss)" by (cases acc) auto
  obtain u' ms' ss' where c: "collect (deref (heap s) (knowledge s ! i)) (u, ms, ss) = (u', ms', ss')"
    by (cases "collect (deref (heap s) (knowledge s ! i)) (u, ms, ss)") auto
  note g = collect_grows[OF c]
  show ?thesis
  proof (cases u)
    case True
    with assms(1) acc obtain a where "a \<in> set (knowledge s)" "cells (deref (heap s) a) \<noteq> {||}"
      "cells (deref (heap s) a) |\<subseteq>| ms |\<union>| ss" by (auto simp: triggered_def)
    moreover from this g have "cells (deref (heap s) a) |\<subseteq>| ms' |\<union>| ss'" by blast
    ultimately show ?thesis unfolding acc c triggered_def by auto
  next
    case False
    show ?thesis
    proof (cases u')
      case True
      from collect_new[OF c True False] assms(2,3)
      show ?thesis unfolding acc c triggered_def by (auto intro!: bexI[of _ "knowledge s ! i"])
    next
      case False
      then show ?thesis unfolding acc c triggered_def by simp
    qed
  qed
qed

lemma triggered_remove:
  assumes "triggered s acc" "fcard (cells x) = 0"
  shows "triggered (s\<lparr>knowledge := list_remove (heap s) x (knowledge s)\<rparr>) acc"
proof -
  obtain u ms ss where acc: "acc = (u, ms, ss)" by (cases acc) auto
  show ?thesis
  proof (cases u)
    case True
    with assms(1) acc obtain a where a: "a \<in> set (knowledge s)" "cells (deref (heap s) a) \<noteq> {||}"
      "cells (deref (heap s) a) |\<subseteq>| ms |\<union>| ss" by (auto simp: triggered_def)
    from assms(2) a(2) have "deref (heap s) a \<noteq> x" by auto
    from list_remove_keeps[of a "knowledge s" "heap s" x, OF a(1) this] a(2,3)
    show ?thesis unfolding acc triggered_def by auto
  next
    case False
    then show ?thesis unfolding acc triggered_def by simp
  qed
qed

lemma check_knowledge_loop_triggered:
  assumes "check_knowledge_loop s 0 (False, {||}, {||}) = (s1, acc1)"
  shows "triggered s1 acc1 \<and> kcells s1 \<le> kcells s"
proof -
  let ?P = "\<lambda>s' acc. triggered s' acc \<and> kcells s' \<le> kcells s"
  have "?P (fst (check_knowledge_loop s 0 (False, {||}, {||}))) (snd (check_knowledge_loop s 0 (False, {||}, {||})))"
  proof (rule check_knowledge_loop_inv[where P = ?P])
    show "?P s (False, {||}, {||})" by (simp add: triggered_def)
  next
    fix s' i acc
    assume "?P s' acc" "i < length (knowledge s')" "fcard (cells (deref (heap s') (knowledge s' ! i))) = 0"
    moreover have "kcells (s'\<lparr>knowledge := list_remove (heap s') (deref (heap s') (knowledge s' ! i)) (knowledge s')\<rparr>) \<le> kcells s'"
      by (simp add: kcells_def list_remove_sum)
    ultimately show "?P (s'\<lparr>knowledge := list_remove (heap s') (deref (heap s') (knowledge s' ! i)) (knowledge s')\<rparr>) acc"
      using triggered_remove[of s' acc "deref (heap s') (knowledge s' ! i)"] by simp
  next
    fix s' i acc
    assume "?P s' acc" "i < length (knowledge s')" "fcard (cells (deref (heap s') (knowledge s' ! i))) \<noteq> 0"
    then show "?P s' (collect (deref (heap s') (knowledge s' ! i)) acc)"
      using triggered_collect by blast
  qed
  with assms show ?thesis by simp
qed

lemma sum_list_strict:
  fixes f g :: "'a \<Rightarrow> nat"
  assumes "\<And>a. a \<in> set as \<Longrightarrow> f a \<le> g a" "a \<in> set as" "f a < g a"
  shows "sum_list (map f as) < sum_list (map g as)"
proof -
  have le: "\<And>bs. set bs \<subseteq> set as \<Longrightarrow> sum_list (map f bs) \<le> sum_list (map g bs)"
    using assms(1) by (simp add: subset_code(1) sum_list_mono)
  from assms(2) obtain xs ys where sp: "as = xs @ a # ys" by (meson split_list)
  have "sum_list (map f xs) \<le> sum_list (map g xs)" "sum_list (map f ys) \<le> sum_list (map g ys)"
    using le[of xs] le[of ys] sp by auto
  with assms(3) show ?thesis unfolding sp by simp
qed

lemma kcells_marks:
  assumes "triggered s (True, ms, ss)"
  shows "kcells (mark_safes (mark_mines s ms) ss) < kcells s"
proof -
  from assms obtain a where a: "a \<in> set (knowledge s)" "cells (deref (heap s) a) \<noteq> {||}"
     "cells (deref (heap s) a) |\<subseteq>| ms |\<union>| ss" by (auto simp: triggered_def)
  let ?f = "\<lambda>a. fcard (cells (marked_safes (marked_mines (deref (heap s) a) ms) ss))"
  let ?g = "\<lambda>a. fcard (cells (deref (heap s) a))"
  have eq: "kcells (mark_safes (mark_mines s ms) ss) = sum_list (map ?f (knowledge s))"
    by (simp add: kcells_def mark_safes_fields mark_mines_fields cong: map_cong)
  have le: "\<And>b. ?f b \<le> ?g b"
    by (rule fcard_mono) (auto simp: marked_safes_def marked_mines_def)
  have "cells (deref (heap s) a) |-| ms |-| ss = {||}" using a(3) by auto
  then have "?f a = 0" by (simp add: marked_safes_def marked_mines_def fcard_fempty)
  moreover have "?g a > 0" using a(2)
    by (metis fcard_fempty fcard_seteq gr0I le_zero_eq fempty_fsubsetI)
  ultimately have "?f a < ?g a" by (simp add: fcard_fempty)
  from sum_list_strict[of "knowledge s" ?f ?g, OF le a(1) this] eq
  show ?thesis by (simp add: kcells_def)
qed

text \<open>
  \<open>check_knowledge\<close> itself: one pass of the loop, then, when \<open>update\<close> was set, every
  collected mine and safe is marked and \<open>check_knowledge\<close> runs again.
\<close>

function check_knowledge :: "ai \<Rightarrow> ai" where
  "check_knowledge s =
     (case check_knowledge_loop s 0 (False, {||}, {||}) of
        (s1, update, ms, ss) \<Rightarrow>
          if update then check_knowledge (mark_safes (mark_mines s1 ms) ss) else s1)"
  by pat_completeness auto

termination check_knowledge
proof (relation "measure kcells")
  show "wf (measure kcells)" by simp
next
  fix s s1 :: ai and y :: "bool \<times> cell fset \<times> cell fset" and update :: bool
    and z :: "cell fset \<times> cell fset" and ms ss :: "cell fset"
  assume "(s1, y) = check_knowledge_loop s 0 (False, {||}, {||})" "(update, z) = y"
    "(ms, ss) = z" "update"
  then have l: "check_knowledge_loop s 0 (False, {||}, {||}) = (s1, True, ms, ss)" by simp
  from check_knowledge_loop_triggered[OF l] kcells_marks[of s1 ms ss]
  show "(mark_safes (mark_mines s1 ms) ss, s) \<in> measure kcells" by simp
qed

declare check_knowledge.simps [simp del]

section \<open>\<open>check_and_add_sentence\<close> and \<open>add_knowledge\<close>\<close>

text \<open>
  The body of the subset loop: \<open>cell_difference\<close> and \<open>count_difference\<close> for the list
  element \<open>info\<close> and the sentence being added, or \<open>None\<close> when neither cell set
  contains the other.
\<close>

definition subset_difference :: "sentence \<Rightarrow> sentence \<Rightarrow> (cell fset \<times> int) option" where
  "subset_difference info sen =
     (if cells info |\<subseteq>| cells sen
      then Some (cells sen |-| cells info, count sen - count info)
      else if cells sen |\<subseteq>| cells info
      then Some (cells info |-| cells sen, count info - count sen)
      else None)"

text \<open>
  \<open>self.knowledge.append(sentence)\<close>: the sentence becomes a new object of the store,
  at the first unused address, and its address goes to the end of the list.
\<close>

definition append_sentence :: "ai \<Rightarrow> sentence \<Rightarrow> ai" where
  "append_sentence s sen =
     s\<lparr>heap := heap s @ [sen], knowledge := knowledge s @ [length (heap s)]\<rparr>"

text \<open>
  \<open>check_and_add_sentence\<close> calls itself from inside a loop over a list that the calls
  change, so the model has fuel: the first argument bounds the number of nested calls
  and loop steps, and \<open>None\<close> means that it was not enough. \<open>subset_loop n s a i\<close> is
  the \<open>for info in self.knowledge\<close> loop at index \<open>i\<close>, where \<open>a\<close> is the address of
  the local variable \<open>sentence\<close>; the loop reads \<open>sentence.cells\<close> and \<open>sentence.count\<close>
  from the store at every step, as the source does. Python stops a recursion that is
  too deep with \<open>RecursionError\<close>; the model has no such limit, so a run that needs
  more and more fuel is a run that Python ends with that error.
\<close>

fun check_and_add_sentence :: "nat \<Rightarrow> ai \<Rightarrow> sentence \<Rightarrow> ai option"
  and subset_loop :: "nat \<Rightarrow> ai \<Rightarrow> nat \<Rightarrow> nat \<Rightarrow> ai option" where
  "check_and_add_sentence 0 s sen = None"
| "check_and_add_sentence (Suc n) s sen =
     (let s1 = check_knowledge s in
      if sentence_in sen s1 then Some s1
      else if fcard (cells sen) = 0 then Some s1
      else case known_mines sen of
        Some cs \<Rightarrow> Some (mark_mines s1 cs)
      | None \<Rightarrow>
         (case known_safes sen of
            Some cs \<Rightarrow> Some (mark_safes s1 cs)
          | None \<Rightarrow> subset_loop n (append_sentence s1 sen) (length (heap s1)) 0))"
| "subset_loop 0 s a i = None"
| "subset_loop (Suc n) s a i =
     (if i < length (knowledge s) then
        (let info = deref (heap s) (knowledge s ! i) in
         if fcard (cells info) = 0
         then subset_loop n (s\<lparr>knowledge := list_remove (heap s) info (knowledge s)\<rparr>) a (Suc i)
         else case subset_difference info (deref (heap s) a) of
           None \<Rightarrow> subset_loop n s a (Suc i)
         | Some (cell_difference, count_difference) \<Rightarrow>
             (case check_and_add_sentence n s (Sentence cell_difference count_difference) of
                None \<Rightarrow> None
              | Some s' \<Rightarrow> subset_loop n s' a (Suc i)))
      else Some s)"

text \<open>
  The neighbour loop of \<open>add_knowledge\<close>: \<open>neighbours\<close> is the order in which the two
  nested \<open>range\<close> loops visit \<open>(row, col)\<close>, \<open>neighbour_step\<close> is the loop body on the
  pair \<open>(new_set, count)\<close>. The bound check is the source's: \<open>row\<close> against
  \<open>self.width\<close> and \<open>col\<close> against \<open>self.height\<close>.
\<close>

definition neighbours :: "cell \<Rightarrow> cell list" where
  "neighbours cell =
     concat (map (\<lambda>row. map (\<lambda>col. (row, col)) [snd cell - 1, snd cell, snd cell + 1])
                 [fst cell - 1, fst cell, fst cell + 1])"

definition neighbour_step :: "ai \<Rightarrow> cell \<Rightarrow> cell \<Rightarrow> cell fset \<times> int \<Rightarrow> cell fset \<times> int" where
  "neighbour_step s cell rc acc =
     (case acc of (new_set, cnt) \<Rightarrow>
        if rc = cell then (new_set, cnt)
        else if fst rc < 0 \<or> fst rc \<ge> width s \<or> snd rc < 0 \<or> snd rc \<ge> height s
        then (new_set, cnt)
        else if rc |\<in>| safes s then (new_set, cnt)
        else if rc |\<in>| mines s then (new_set, cnt - 1)
        else (finsert rc new_set, cnt))"

definition new_sentence :: "ai \<Rightarrow> cell \<Rightarrow> int \<Rightarrow> sentence" where
  "new_sentence s cell cnt =
     (case fold (neighbour_step s cell) (neighbours cell) ({||}, cnt) of
        (new_set, cnt') \<Rightarrow> Sentence new_set cnt')"

definition add_knowledge :: "nat \<Rightarrow> ai \<Rightarrow> cell \<Rightarrow> int \<Rightarrow> ai option" where
  "add_knowledge n s cell cnt =
     (let s1 = s\<lparr>moves_made := finsert cell (moves_made s), safes := finsert cell (safes s)\<rparr>
      in check_and_add_sentence n s1 (new_sentence s1 cell cnt))"

text \<open>
  A sequence of \<open>add_knowledge\<close> calls, one per revealed cell and its count, as the
  game loop makes them.
\<close>

fun add_knowledges :: "nat \<Rightarrow> ai \<Rightarrow> (cell \<times> int) list \<Rightarrow> ai option" where
  "add_knowledges n s [] = Some s"
| "add_knowledges n s ((cell, cnt) # obs) =
     (case add_knowledge n s cell cnt of
        None \<Rightarrow> None
      | Some s' \<Rightarrow> add_knowledges n s' obs)"

text \<open>
  \<open>make_safe_move\<close>: the first cell of \<open>self.safes\<close>, in the order \<open>order\<close> in which
  Python happens to visit that set, that is not in \<open>self.moves_made\<close>. The method
  assigns to no attribute, so the state it returns is the one it was given.
\<close>

definition make_safe_move :: "cell list \<Rightarrow> ai \<Rightarrow> cell option \<times> ai" where
  "make_safe_move order s = (find (\<lambda>cell. cell |\<notin>| moves_made s) order, s)"

section \<open>The resolution loop as the specification words it\<close>

text \<open>
  The loop as the specification words it, for comparison with \<open>subset_loop\<close>: step 6
  of \<open>add_constraint\<close> resolves the stored constraint against "every other active
  constraint". The two functions below are \<open>check_and_add_sentence\<close> and \<open>subset_loop\<close>
  with one more test, which passes over the list element that is the stored
  constraint itself.
\<close>

fun check_and_add_sentence_others :: "nat \<Rightarrow> ai \<Rightarrow> sentence \<Rightarrow> ai option"
  and subset_loop_others :: "nat \<Rightarrow> ai \<Rightarrow> nat \<Rightarrow> nat \<Rightarrow> ai option" where
  "check_and_add_sentence_others 0 s sen = None"
| "check_and_add_sentence_others (Suc n) s sen =
     (let s1 = check_knowledge s in
      if sentence_in sen s1 then Some s1
      else if fcard (cells sen) = 0 then Some s1
      else case known_mines sen of
        Some cs \<Rightarrow> Some (mark_mines s1 cs)
      | None \<Rightarrow>
         (case known_safes sen of
            Some cs \<Rightarrow> Some (mark_safes s1 cs)
          | None \<Rightarrow> subset_loop_others n (append_sentence s1 sen) (length (heap s1)) 0))"
| "subset_loop_others 0 s a i = None"
| "subset_loop_others (Suc n) s a i =
     (if i < length (knowledge s) then
        (if knowledge s ! i = a then subset_loop_others n s a (Suc i)
         else
           (let info = deref (heap s) (knowledge s ! i) in
            if fcard (cells info) = 0
            then subset_loop_others n
                   (s\<lparr>knowledge := list_remove (heap s) info (knowledge s)\<rparr>) a (Suc i)
            else case subset_difference info (deref (heap s) a) of
              None \<Rightarrow> subset_loop_others n s a (Suc i)
            | Some (cell_difference, count_difference) \<Rightarrow>
                (case check_and_add_sentence_others n s
                        (Sentence cell_difference count_difference) of
                   None \<Rightarrow> None
                 | Some s' \<Rightarrow> subset_loop_others n s' a (Suc i))))
      else Some s)"

text \<open>
  \<open>grows s s'\<close>: each of \<open>mines\<close>, \<open>safes\<close> and \<open>moves_made\<close> of \<open>s\<close> is contained in
  that of \<open>s'\<close>.
\<close>

definition grows :: "ai \<Rightarrow> ai \<Rightarrow> bool" where
  "grows s s' \<longleftrightarrow>
     mines s |\<subseteq>| mines s' \<and> safes s |\<subseteq>| safes s' \<and> moves_made s |\<subseteq>| moves_made s'"

section \<open>How the operations change the three sets\<close>

lemma grows_refl: "grows s s"
  by (simp add: grows_def)

lemma grows_trans: "grows s t \<Longrightarrow> grows t u \<Longrightarrow> grows s u"
  by (auto simp: grows_def)

lemma grows_mark_mines: "grows s (mark_mines s cs)"
  by (auto simp: grows_def mark_mines_fields)

lemma grows_mark_safes: "grows s (mark_safes s cs)"
  by (auto simp: grows_def mark_safes_fields)

lemma grows_knowledge: "grows s (s\<lparr>knowledge := k\<rparr>)"
  by (simp add: grows_def)

lemma grows_append: "grows s (append_sentence s sen)"
  by (simp add: grows_def append_sentence_def)

lemma check_knowledge_loop_grows: "grows s (fst (check_knowledge_loop s i acc))"
proof (rule check_knowledge_loop_inv[where P = "\<lambda>s' acc. grows s s'"])
  show "grows s s" by (rule grows_refl)
next
  fix s' i acc
  assume "grows s s'"
  then show "grows s (s'\<lparr>knowledge := list_remove (heap s') (deref (heap s') (knowledge s' ! i)) (knowledge s')\<rparr>)"
    by (simp add: grows_def)
qed

lemma check_knowledge_again:
  "check_knowledge_loop s 0 (False, {||}, {||}) = (s1, True, ms, ss) \<Longrightarrow>
   check_knowledge s = check_knowledge (mark_safes (mark_mines s1 ms) ss)"
  by (subst check_knowledge.simps) simp

lemma check_knowledge_done:
  "check_knowledge_loop s 0 (False, {||}, {||}) = (s1, False, ms, ss) \<Longrightarrow> check_knowledge s = s1"
  by (subst check_knowledge.simps) simp

lemma check_knowledge_rule:
  assumes stop: "\<And>s s1 ms ss.
      check_knowledge_loop s 0 (False, {||}, {||}) = (s1, False, ms, ss) \<Longrightarrow> P s s1"
    and again: "\<And>s s1 ms ss.
      check_knowledge_loop s 0 (False, {||}, {||}) = (s1, True, ms, ss) \<Longrightarrow>
      P (mark_safes (mark_mines s1 ms) ss) (check_knowledge (mark_safes (mark_mines s1 ms) ss)) \<Longrightarrow>
      P s (check_knowledge (mark_safes (mark_mines s1 ms) ss))"
  shows "P s (check_knowledge s)"
proof (induction s rule: check_knowledge.induct)
  case (1 s)
  obtain s1 update ms ss where l: "check_knowledge_loop s 0 (False, {||}, {||}) = (s1, update, ms, ss)"
    by (cases "check_knowledge_loop s 0 (False, {||}, {||})") auto
  show ?case
  proof (cases update)
    case True
    have "P (mark_safes (mark_mines s1 ms) ss) (check_knowledge (mark_safes (mark_mines s1 ms) ss))"
      by (rule "1.IH"[OF l[symmetric] refl refl True])
    moreover from l True
    have lt: "check_knowledge_loop s 0 (False, {||}, {||}) = (s1, True, ms, ss)" by simp
    ultimately show ?thesis using again[OF lt]
      by (simp add: check_knowledge_again[OF lt])
  next
    case False
    with l have lf: "check_knowledge_loop s 0 (False, {||}, {||}) = (s1, False, ms, ss)" by simp
    from stop[OF lf] show ?thesis
      by (simp add: check_knowledge_done[OF lf])
  qed
qed

lemma check_knowledge_grows: "grows s (check_knowledge s)"
proof (rule check_knowledge_rule[where P = grows])
  fix s s1 ms ss
  assume "check_knowledge_loop s 0 (False, {||}, {||}) = (s1, False, ms, ss)"
  with check_knowledge_loop_grows[of s 0 "(False, {||}, {||})"] show "grows s s1" by simp
next
  fix s s1 ms ss
  assume l: "check_knowledge_loop s 0 (False, {||}, {||}) = (s1, True, ms, ss)"
    and ih: "grows (mark_safes (mark_mines s1 ms) ss) (check_knowledge (mark_safes (mark_mines s1 ms) ss))"
  have "grows s s1" using check_knowledge_loop_grows[of s 0 "(False, {||}, {||})"] l by simp
  moreover have "grows s1 (mark_safes (mark_mines s1 ms) ss)"
    by (rule grows_trans[OF grows_mark_mines grows_mark_safes])
  ultimately show "grows s (check_knowledge (mark_safes (mark_mines s1 ms) ss))"
    using ih grows_trans by blast
qed

lemma check_and_add_sentence_grows:
  "(check_and_add_sentence n s sen = Some s' \<longrightarrow> grows s s')" 
  "(subset_loop n s a i = Some s' \<longrightarrow> grows s s')"
proof (induction n s sen and n s a i arbitrary: s' and s' rule: check_and_add_sentence_subset_loop.induct)
  case (1 s sen)
  show ?case by simp
next
  case (2 n s sen)
  let ?s1 = "check_knowledge s"
  have g: "grows s ?s1" by (rule check_knowledge_grows)
  show ?case
  proof
    assume r: "check_and_add_sentence (Suc n) s sen = Some s'"
    show "grows s s'"
    proof (cases "sentence_in sen ?s1 \<or> fcard (cells sen) = 0")
      case True
      with r have "s' = ?s1" by (auto simp: Let_def fcard_fempty split: if_splits)
      with g show ?thesis by simp
    next
      case nt: False
      show ?thesis
      proof (cases "known_mines sen")
        case (Some cs)
        with r nt have "s' = mark_mines ?s1 cs" by (simp add: Let_def)
        with g grows_mark_mines[of ?s1 cs] show ?thesis using grows_trans by blast
      next
        case nm: None
        show ?thesis
        proof (cases "known_safes sen")
          case (Some cs)
          with r nt nm have "s' = mark_safes ?s1 cs" by (simp add: Let_def)
          with g grows_mark_safes[of ?s1 cs] show ?thesis using grows_trans by blast
        next
          case None
          with r nt nm have "subset_loop n (append_sentence ?s1 sen) (length (heap ?s1)) 0 = Some s'"
            by (simp add: Let_def)
          with "2.IH"[OF refl _ _ nm None, of s'] nt
          have "grows (append_sentence ?s1 sen) s'" by simp
          with g grows_append[of ?s1 sen] show ?thesis using grows_trans by blast
        qed
      qed
    qed
  qed
next
  case (3 s a i)
  show ?case by simp
next
  case (4 n s a i)
  show ?case
  proof
    assume r: "subset_loop (Suc n) s a i = Some s'"
    show "grows s s'"
    proof (cases "i < length (knowledge s)")
      case False
      with r show ?thesis by (simp add: grows_refl)
    next
      case inr: True
      let ?info = "deref (heap s) (knowledge s ! i)"
      show ?thesis
      proof (cases "fcard (cells ?info) = 0")
        case True
        with r inr have "subset_loop n (s\<lparr>knowledge := list_remove (heap s) ?info (knowledge s)\<rparr>) a (Suc i) = Some s'"
          by (simp add: Let_def)
        with "4.IH"(1)[OF inr refl True, of s'] 
        have "grows (s\<lparr>knowledge := list_remove (heap s) ?info (knowledge s)\<rparr>) s'" by simp
        then show ?thesis by (simp add: grows_def)
      next
        case ne: False
        show ?thesis
        proof (cases "subset_difference ?info (deref (heap s) a)")
          case None
          with r inr ne have "subset_loop n s a (Suc i) = Some s'" by (simp add: Let_def)
          with "4.IH"(2)[OF inr refl ne None, of s'] show ?thesis by simp
        next
          case (Some d)
          obtain cd k where d: "d = (cd, k)" by (cases d) auto
          from r inr ne Some d obtain s2 where
            c: "check_and_add_sentence n s (Sentence cd k) = Some s2" and
            l: "subset_loop n s2 a (Suc i) = Some s'"
            by (auto simp: Let_def split: option.splits)
          from "4.IH"(3)[OF inr refl ne Some d[symmetric], of s2] c have "grows s s2" by simp
          moreover from "4.IH"(4)[OF inr refl ne Some d[symmetric] c, of s'] l have "grows s2 s'" by simp
          ultimately show ?thesis using grows_trans by blast
        qed
      qed
    qed
  qed
qed

section \<open>Sentences\<close>

text \<open>
  C10, as the code has it: \<open>known_mines\<close> returns the cell set exactly when the number
  of cells equals the count, whatever the count is, and \<open>None\<close> otherwise. There is no
  test that the count is positive.
\<close>

theorem C10_known_mines:
  "known_mines sen = (if int (fcard (cells sen)) = count sen then Some (cells sen) else None)"
  by (simp add: known_mines_def)

text \<open>
  C10 as stated fails for the sentence with no cells and count 0: \<open>known_mines\<close>
  returns its (empty) cell set, not \<open>None\<close>.
\<close>

theorem C10_empty_sentence_counterexample:
  "known_mines (Sentence {||} 0) = Some {||} \<and> known_mines (Sentence {||} 0) \<noteq> None"
  by (simp add: known_mines_def Sentence_def)

text \<open>
  C8, as the code has it: constructing a sentence stores the cells and the count as
  they are given; nothing is checked.
\<close>

theorem C8_construction_stores:
  "cells (Sentence cs k) = cs \<and> count (Sentence cs k) = k"
  by (simp add: Sentence_def)

text \<open>
  C8 as stated fails: a sentence with a negative count, and one with a count above
  the number of its cells, are both constructed.
\<close>

theorem C8_ill_formed_counterexample:
  "count (Sentence {||} (- 1)) = - 1 \<and> \<not> 0 \<le> count (Sentence {||} (- 1)) \<and>
   count (Sentence {|(0, 0)|} 2) = 2 \<and>
   \<not> count (Sentence {|(0, 0)|} 2) \<le> int (fcard (cells (Sentence {|(0, 0)|} 2)))"
  by (simp add: Sentence_def fcard_finsert_if fcard_fempty)

section \<open>Knowledge base: what the code does on concrete games\<close>

text \<open>
  C1: the cell of a move is added to \<open>safes\<close> directly, not through \<open>mark_safe\<close>, so it
  stays in the sentences that contain it. After \<open>(0, 0)\<close> with count 1 and \<open>(0, 1)\<close>
  with count 1 on an 8 by 8 board (a board with a mine at \<open>(1, 0)\<close> gives these counts),
  \<open>(0, 1)\<close> is a confirmed safe cell and is still a cell of the first sentence.
\<close>

theorem C1_clicked_cell_stays_in_constraint:
  "case add_knowledges 20 (MinesweeperAI 8 8) [((0, 0), 1), ((0, 1), 1)] of
     None \<Rightarrow> False
   | Some s \<Rightarrow> map (deref (heap s)) (knowledge s) =
                 [Sentence {|(0, 1), (1, 0), (1, 1)|} 1, Sentence {|(0, 2), (1, 0), (1, 1), (1, 2)|} 1]
               \<and> (0, 1) |\<in>| safes s \<and> (0, 1) |\<in>| cells (deref (heap s) (knowledge s ! 0))"
  by code_simp

text \<open>
  C2: the bound check compares the row with the width and the column with the height.
  On a board of height 1 and width 2, the move \<open>(0, 0)\<close> with count 0 builds the
  sentence over \<open>(1, 0)\<close>, a cell below the board, and leaves out \<open>(0, 1)\<close>, the one
  neighbour the board has; \<open>(1, 0)\<close> is then marked safe.
\<close>

theorem C2_bounds_swapped:
  "new_sentence ((MinesweeperAI 1 2)\<lparr>moves_made := {|(0, 0)|}, safes := {|(0, 0)|}\<rparr>) (0, 0) 0
     = Sentence {|(1, 0)|} 0 \<and>
   map_option safes (add_knowledge 20 (MinesweeperAI 1 2) (0, 0) 0) = Some {|(0, 0), (1, 0)|}"
  by code_simp

text \<open>
  The neighbour loop in closed form, on every board: the sentence holds the cells of
  the 3 by 3 block around the move that pass the source's bound check and are in
  neither \<open>safes\<close> nor \<open>mines\<close>, and the count drops by one for each cell of the block
  that passes the bound check, is not in \<open>safes\<close> and is in \<open>mines\<close>. The bound check
  is the source's, row against width and column against height.
\<close>

definition in_bounds_as_coded :: "ai \<Rightarrow> cell \<Rightarrow> bool" where
  "in_bounds_as_coded s rc \<longleftrightarrow> 0 \<le> fst rc \<and> fst rc < width s \<and> 0 \<le> snd rc \<and> snd rc < height s"

lemma fold_neighbour_step:
  "fold (neighbour_step s cell) xs (A, k) =
     (A |\<union>| fset_of_list (filter (\<lambda>rc. rc \<noteq> cell \<and> in_bounds_as_coded s rc \<and>
                                        rc |\<notin>| safes s \<and> rc |\<notin>| mines s) xs),
      k - int (length (filter (\<lambda>rc. rc \<noteq> cell \<and> in_bounds_as_coded s rc \<and>
                                        rc |\<notin>| safes s \<and> rc |\<in>| mines s) xs)))"
proof (induction xs arbitrary: A k)
  case Nil
  show ?case by simp
next
  case (Cons rc xs)
  have "neighbour_step s cell rc (A, k) =
      (if rc \<noteq> cell \<and> in_bounds_as_coded s rc \<and> rc |\<notin>| safes s
       then (if rc |\<in>| mines s then (A, k - 1) else (finsert rc A, k))
       else (A, k))"
    by (auto simp: neighbour_step_def in_bounds_as_coded_def)
  then show ?case
    by (simp add: Cons.IH)
qed

lemma new_sentence_eq:
  "new_sentence s cell cnt =
     Sentence (fset_of_list (filter (\<lambda>rc. rc \<noteq> cell \<and> in_bounds_as_coded s rc \<and>
                                        rc |\<notin>| safes s \<and> rc |\<notin>| mines s) (neighbours cell)))
       (cnt - int (length (filter (\<lambda>rc. rc \<noteq> cell \<and> in_bounds_as_coded s rc \<and>
                                        rc |\<notin>| safes s \<and> rc |\<in>| mines s) (neighbours cell))))"
  by (simp add: new_sentence_def fold_neighbour_step)

text \<open>The scenario of C2 on the square board: the three neighbours of the corner are safe.\<close>

lemma corner_scenario:
  "map_option safes (add_knowledge 20 (MinesweeperAI 8 8) (0, 0) 0)
     = Some {|(0, 0), (0, 1), (1, 0), (1, 1)|}"
  by code_simp

text \<open>
  C3: a \<open>remove\<close> inside the subset loop makes the loop pass over the next sentence.
  The seven moves below are those of a board with mines at \<open>(0, 2)\<close> and \<open>(6, 6)\<close>.
  When the last sentence \<open>{(6,6),(7,6)} = 1\<close> is added, the list holds an empty sentence
  in front of \<open>{(6,6),(6,7),(7,6)} = 1\<close>; the loop removes the empty one and never looks
  at the other, so \<open>{(6,7)} = 0\<close> is not derived and \<open>(6, 7)\<close> is not marked safe.
\<close>

theorem C3_subset_pair_skipped:
  "case add_knowledges 20 (MinesweeperAI 8 8)
          [((7, 4), 0), ((0, 0), 0), ((0, 1), 1), ((1, 1), 1), ((7, 7), 1), ((2, 2), 0), ((7, 5), 1)] of
     None \<Rightarrow> False
   | Some s \<Rightarrow>
       map (deref (heap s)) (knowledge s) =
         [Sentence {|(6, 6), (6, 7), (7, 6)|} 1, Sentence {|(6, 6), (7, 6)|} 1] \<and>
       (6, 7) |\<notin>| safes s \<and> (6, 7) |\<notin>| mines s"
  by code_simp

text \<open>
  The same three moves in the corner \<open>(7, 7)\<close> without the earlier ones: the pair is
  resolved and \<open>(6, 7)\<close> is safe. The scenario of C3 holds in both orders of arrival.
\<close>

lemma subset_pair_resolved:
  "map_option safes (add_knowledges 20 (MinesweeperAI 8 8) [((7, 4), 0), ((7, 7), 1), ((7, 5), 1)])
     = Some {|(6, 3), (6, 4), (6, 5), (6, 7), (7, 3), (7, 4), (7, 5), (7, 7)|}"
  by code_simp

lemma subset_scenario:
  "map_option safes (check_and_add_sentence 20
      (append_sentence (MinesweeperAI 8 8) (Sentence {|(0, 0), (0, 1), (0, 2)|} 1))
      (Sentence {|(0, 0), (0, 1)|} 1)) = Some {|(0, 2)|}"
  "map_option safes (check_and_add_sentence 20
      (append_sentence (MinesweeperAI 8 8) (Sentence {|(0, 0), (0, 1)|} 1))
      (Sentence {|(0, 0), (0, 1), (0, 2)|} 1)) = Some {|(0, 2)|}"
  by code_simp+

text \<open>
  What one step of the subset loop does with a sentence it reaches: the difference of
  the larger cell set and the smaller one, with the difference of the counts.
\<close>

lemma subset_difference_cases:
  "cells info |\<subseteq>| cells sen \<Longrightarrow>
     subset_difference info sen = Some (cells sen |-| cells info, count sen - count info)"
  "\<not> cells info |\<subseteq>| cells sen \<Longrightarrow> cells sen |\<subseteq>| cells info \<Longrightarrow>
     subset_difference info sen = Some (cells info |-| cells sen, count info - count sen)"
  by (simp_all add: subset_difference_def)

text \<open>
  C4: a \<open>remove\<close> inside the loop of \<open>check_knowledge\<close> makes the loop pass over the next
  sentence. On a board whose only mine near the corner is at \<open>(0, 2)\<close>, four moves
  leave \<open>{(0,2)} = 1\<close> twice in the list; \<open>check_knowledge\<close> marks the mine, which empties
  both, then removes one of the two and returns with the other, an empty sentence
  with count 0, still in the list.
\<close>

theorem C4_settle_leaves_empty_sentence:
  "case add_knowledges 20 (MinesweeperAI 8 8) [((0, 0), 0), ((0, 1), 1), ((1, 1), 1), ((2, 2), 0)] of
     None \<Rightarrow> False
   | Some s \<Rightarrow>
       map (deref (heap s)) (knowledge s) = [Sentence {|(0, 2)|} 1, Sentence {|(0, 2)|} 1] \<and>
       map (deref (heap (check_knowledge s))) (knowledge (check_knowledge s)) = [Sentence {||} 0]"
  by code_simp

text \<open>
  The same with two different sentences, and with a sentence that is passed over
  while it is still to be absorbed; and the scenario of C4, which holds.
\<close>

lemma settle_leaves_unabsorbed:
  "map (deref (heap (check_knowledge
      (append_sentence (append_sentence (MinesweeperAI 8 8) (Sentence {|(1, 1)|} 1))
         (Sentence {|(1, 2)|} 1)))))
     (knowledge (check_knowledge
      (append_sentence (append_sentence (MinesweeperAI 8 8) (Sentence {|(1, 1)|} 1))
         (Sentence {|(1, 2)|} 1)))) = [Sentence {||} 0]"
  "map (deref (heap (check_knowledge
      (append_sentence (append_sentence (MinesweeperAI 8 8) (Sentence {||} 0))
         (Sentence {|(1, 1)|} 1)))))
     (knowledge (check_knowledge
      (append_sentence (append_sentence (MinesweeperAI 8 8) (Sentence {||} 0))
         (Sentence {|(1, 1)|} 1)))) = [Sentence {|(1, 1)|} 1]"
  by code_simp+

lemma settle_scenario:
  "mines (check_knowledge (append_sentence (MinesweeperAI 8 8) (Sentence {|(1, 1), (1, 2)|} 2)))
     = {|(1, 1), (1, 2)|}"
  "knowledge (check_knowledge (append_sentence (MinesweeperAI 8 8) (Sentence {|(1, 1), (1, 2)|} 2)))
     = []"
  by code_simp+

lemma append_sentence_deref:
  "a < length (heap s) \<Longrightarrow> deref (heap (append_sentence s sen)) a = deref (heap s) a"
  "deref (heap (append_sentence s sen)) (length (heap s)) = sen"
  by (simp_all add: append_sentence_def deref_def nth_append)

text \<open>
  C6, as the code has it: a candidate that is equal by value to a sentence of the list,
  once \<open>check_knowledge\<close> has run, is discarded and the knowledge base is left as
  \<open>check_knowledge\<close> left it; and appending a candidate that is equal to none of the
  listed sentences to a list without duplicates gives a list without duplicates.
  Nothing is promised about the list after later calls of \<open>mark_mine\<close> and
  \<open>mark_safe\<close>.
\<close>

theorem C6_duplicate_candidate_discarded:
  "(sentence_in sen (check_knowledge s) \<longrightarrow>
      check_and_add_sentence (Suc n) s sen = Some (check_knowledge s)) \<and>
   (\<not> sentence_in sen s \<and> distinct (map (deref (heap s)) (knowledge s)) \<and>
    list_all (\<lambda>a. a < length (heap s)) (knowledge s) \<longrightarrow>
      distinct (map (deref (heap (append_sentence s sen))) (knowledge (append_sentence s sen))))"
proof (intro conjI impI)
  assume "sentence_in sen (check_knowledge s)"
  then show "check_and_add_sentence (Suc n) s sen = Some (check_knowledge s)"
    by (simp add: Let_def)
next
  assume h: "\<not> sentence_in sen s \<and> distinct (map (deref (heap s)) (knowledge s)) \<and>
    list_all (\<lambda>a. a < length (heap s)) (knowledge s)"
  then have old: "map (deref (heap (append_sentence s sen))) (knowledge s) = map (deref (heap s)) (knowledge s)"
    by (auto simp: list_all_iff append_sentence_deref)
  from h have "sen \<notin> set (map (deref (heap s)) (knowledge s))"
    by (auto simp: sentence_in_def list_ex_iff)
  moreover have k: "knowledge (append_sentence s sen) = knowledge s @ [length (heap s)]"
    by (simp add: append_sentence_def)
  moreover from h have "distinct (map (deref (heap s)) (knowledge s))" by simp
  ultimately show "distinct (map (deref (heap (append_sentence s sen))) (knowledge (append_sentence s sen)))"
    unfolding k map_append old by (simp add: append_sentence_deref(2))
qed

theorem C6_duplicate_candidate_discarded_witness:
  "sentence_in (Sentence {|(0, 1), (1, 0)|} 1)
     (check_knowledge (append_sentence (MinesweeperAI 8 8) (Sentence {|(0, 1), (1, 0)|} 1))) \<and>
   check_and_add_sentence 1 (append_sentence (MinesweeperAI 8 8) (Sentence {|(0, 1), (1, 0)|} 1))
       (Sentence {|(0, 1), (1, 0)|} 1)
     = Some (check_knowledge (append_sentence (MinesweeperAI 8 8) (Sentence {|(0, 1), (1, 0)|} 1))) \<and>
   \<not> sentence_in (Sentence {|(0, 1), (1, 1)|} 1)
       (append_sentence (MinesweeperAI 8 8) (Sentence {|(0, 1), (1, 0)|} 1)) \<and>
   distinct (map (deref (heap (append_sentence
       (append_sentence (MinesweeperAI 8 8) (Sentence {|(0, 1), (1, 0)|} 1))
       (Sentence {|(0, 1), (1, 1)|} 1))))
     (knowledge (append_sentence
       (append_sentence (MinesweeperAI 8 8) (Sentence {|(0, 1), (1, 0)|} 1))
       (Sentence {|(0, 1), (1, 1)|} 1))))"
proof -
  let ?s = "append_sentence (MinesweeperAI 8 8) (Sentence {|(0, 1), (1, 0)|} 1)"
  have a: "sentence_in (Sentence {|(0, 1), (1, 0)|} 1) (check_knowledge ?s)" by code_simp
  have b: "\<not> sentence_in (Sentence {|(0, 1), (1, 1)|} 1) ?s \<and>
    distinct (map (deref (heap ?s)) (knowledge ?s)) \<and>
    list_all (\<lambda>a. a < length (heap ?s)) (knowledge ?s)" by code_simp
  from C6_duplicate_candidate_discarded[of "Sentence {|(0, 1), (1, 0)|} 1" ?s 0] a
    C6_duplicate_candidate_discarded[of "Sentence {|(0, 1), (1, 1)|} 1" ?s 0] b
  show ?thesis by simp
qed

text \<open>
  C6 as stated fails. On a board whose only mine near the corner is at \<open>(0, 2)\<close>,
  revealing \<open>(0, 0)\<close>, \<open>(0, 1)\<close> and \<open>(1, 1)\<close> leaves two sentences with the same
  cells and the same count in the list: the second was stored as a different sentence
  and \<open>mark_safe\<close> then removed the cells in which it differed.
\<close>

theorem C6_duplicates_counterexample:
  "case add_knowledges 20 (MinesweeperAI 8 8) [((0, 0), 0), ((0, 1), 1), ((1, 1), 1)] of
     None \<Rightarrow> False
   | Some s \<Rightarrow>
       map (deref (heap s)) (knowledge s) = [Sentence {|(0, 2), (1, 2)|} 1, Sentence {|(0, 2), (1, 2)|} 1] \<and>
       \<not> distinct (map (deref (heap s)) (knowledge s))"
  by code_simp






section \<open>Growth of the three sets\<close>

text \<open>
  C9: \<open>mines\<close>, \<open>safes\<close> and \<open>moves_made\<close> only grow. Each of \<open>mark_mine\<close>,
  \<open>mark_safe\<close>, \<open>check_knowledge\<close>, \<open>check_and_add_sentence\<close> and \<open>add_knowledge\<close>
  returns a state whose three sets contain the three sets of the state it was given,
  and \<open>make_safe_move\<close> returns the state unchanged.
\<close>

theorem C9_sets_only_grow:
  "grows s (mark_mine s c) \<and> grows s (mark_safe s c) \<and> grows s (check_knowledge s) \<and>
   (check_and_add_sentence n s sen = Some s' \<longrightarrow> grows s s') \<and>
   (add_knowledge n s cell cnt = Some s'' \<longrightarrow> grows s s'') \<and>
   snd (make_safe_move order s) = s"
proof -
  have "grows s (mark_mine s c)" by (auto simp: grows_def mark_mine_fields)
  moreover have "grows s (mark_safe s c)" by (auto simp: grows_def mark_safe_fields)
  moreover have "add_knowledge n s cell cnt = Some s'' \<longrightarrow> grows s s''"
  proof
    assume a: "add_knowledge n s cell cnt = Some s''"
    let ?s1 = "s\<lparr>moves_made := finsert cell (moves_made s), safes := finsert cell (safes s)\<rparr>"
    from a have "check_and_add_sentence n ?s1 (new_sentence ?s1 cell cnt) = Some s''"
      by (simp add: add_knowledge_def Let_def)
    with check_and_add_sentence_grows(1)[of n ?s1 "new_sentence ?s1 cell cnt" s'']
    have "grows ?s1 s''" by simp
    moreover have "grows s ?s1" by (auto simp: grows_def)
    ultimately show "grows s s''" using grows_trans by blast
  qed
  ultimately show ?thesis
    using check_knowledge_grows[of s] check_and_add_sentence_grows(1)[of n s sen s']
    by (simp add: make_safe_move_def)
qed

theorem C9_sets_only_grow_witness:
  "add_knowledge 20 (MinesweeperAI 8 8) (0, 0) 1 \<noteq> None \<and>
   grows (MinesweeperAI 8 8) (the (add_knowledge 20 (MinesweeperAI 8 8) (0, 0) 1)) \<and>
   check_and_add_sentence 20 (MinesweeperAI 8 8) (Sentence {|(0, 1), (1, 0)|} 1) \<noteq> None \<and>
   grows (MinesweeperAI 8 8)
     (the (check_and_add_sentence 20 (MinesweeperAI 8 8) (Sentence {|(0, 1), (1, 0)|} 1)))"
proof -
  have a: "add_knowledge 20 (MinesweeperAI 8 8) (0, 0) 1 \<noteq> None" by code_simp
  have b: "check_and_add_sentence 20 (MinesweeperAI 8 8) (Sentence {|(0, 1), (1, 0)|} 1) \<noteq> None"
    by code_simp
  from a obtain t where t: "add_knowledge 20 (MinesweeperAI 8 8) (0, 0) 1 = Some t" by auto
  from b obtain u where u: "check_and_add_sentence 20 (MinesweeperAI 8 8) (Sentence {|(0, 1), (1, 0)|} 1) = Some u"
    by auto
  from C9_sets_only_grow[of "MinesweeperAI 8 8" "(0, 0)" 20 "Sentence {|(0, 1), (1, 0)|} 1" u "(0, 0)" 1 t "[]"] t u
  show ?thesis by simp
qed

section \<open>Termination\<close>



























lemma Sentence_cells [simp]: "cells (Sentence cs k) = cs" "count (Sentence cs k) = k"
  by (simp_all add: Sentence_def)











end
